theory Spec2Isabelle
  imports Complex_Main "HOL-Library.Multiset"
begin

section \<open>Calendar dates (Python \<^verbatim>\<open>datetime.date\<close>)\<close>

text \<open>
  A \<^verbatim>\<open>datetime.date\<close> is a triple of year, month and day with
  \<^verbatim>\<open>MINYEAR = 1\<close> and \<^verbatim>\<open>MAXYEAR = 9999\<close>; constructing or replacing
  a date outside that range raises \<^verbatim>\<open>ValueError\<close>. Dates compare as the
  triples (year, month, day), and the difference of two dates is the difference of their
  proleptic Gregorian ordinals.
\<close>

datatype error = ValueError

record date =
  year :: int
  month :: int
  day :: int

definition is_leap :: "int \<Rightarrow> bool" where
  "is_leap y = (y mod 4 = 0 \<and> (y mod 100 \<noteq> 0 \<or> y mod 400 = 0))"

definition mdays :: "int \<Rightarrow> int" where
  "mdays m =
     (if m = 2 then 28
      else if m = 4 \<or> m = 6 \<or> m = 9 \<or> m = 11 then 30
      else 31)"

text \<open>\<^verbatim>\<open>calendar.monthrange(year, month)[1]\<close>, the number of days of a month.\<close>

definition days_in_month :: "int \<Rightarrow> int \<Rightarrow> int" where
  "days_in_month y m = mdays m + (if m = 2 \<and> is_leap y then 1 else 0)"

definition valid_date :: "date \<Rightarrow> bool" where
  "valid_date d =
     (1 \<le> year d \<and> year d \<le> 9999 \<and> 1 \<le> month d \<and> month d \<le> 12 \<and>
      1 \<le> day d \<and> day d \<le> days_in_month (year d) (month d))"

definition date_lt :: "date \<Rightarrow> date \<Rightarrow> bool" where
  "date_lt a b =
     (year a < year b \<or>
      (year a = year b \<and> (month a < month b \<or> (month a = month b \<and> day a < day b))))"

definition date_le :: "date \<Rightarrow> date \<Rightarrow> bool" where
  "date_le a b =
     (year a < year b \<or>
      (year a = year b \<and> (month a < month b \<or> (month a = month b \<and> day a \<le> day b))))"

definition days_before_year :: "int \<Rightarrow> int" where
  "days_before_year y = (y - 1) * 365 + (y - 1) div 4 - (y - 1) div 100 + (y - 1) div 400"

definition days_before_month :: "int \<Rightarrow> int \<Rightarrow> int" where
  "days_before_month y m =
     (\<Sum>k \<leftarrow> [1..<nat m]. mdays (int k)) + (if m > 2 \<and> is_leap y then 1 else 0)"

definition toordinal :: "date \<Rightarrow> int" where
  "toordinal d = days_before_year (year d) + days_before_month (year d) (month d) + day d"

text \<open>\<^verbatim>\<open>(a - b).days\<close> for two dates.\<close>

definition days_between :: "date \<Rightarrow> date \<Rightarrow> int" where
  "days_between a b = toordinal a - toordinal b"

section \<open>Month arithmetic (\<^verbatim>\<open>dateutil.relativedelta\<close>)\<close>

text \<open>
  \<^verbatim>\<open>relativedelta(months=n)\<close> normalises its argument on construction: more than
  eleven months carry into years, keeping the sign. Adding it to a date moves year and
  month, clamps the day to the length of the target month and builds the result with
  \<^verbatim>\<open>date.replace\<close>, which raises \<^verbatim>\<open>ValueError\<close> when the year leaves
  1..9999.
\<close>

record relativedelta =
  years :: int
  months :: int

definition relativedelta_months :: "int \<Rightarrow> relativedelta" where
  "relativedelta_months n =
     (if \<bar>n\<bar> > 11 then
        (let s = (if n < 0 then -1 else 1)
         in \<lparr>years = ((n * s) div 12) * s, months = ((n * s) mod 12) * s\<rparr>)
      else \<lparr>years = 0, months = n\<rparr>)"

definition date_add :: "date \<Rightarrow> relativedelta \<Rightarrow> error + date" where
  "date_add other rd =
     (let y0 = year other + years rd;
          m0 = month other + months rd;
          y = (if m0 > 12 then y0 + 1 else if m0 < 1 then y0 - 1 else y0);
          m = (if m0 > 12 then m0 - 12 else if m0 < 1 then m0 + 12 else m0);
          dd = min (days_in_month y m) (day other)
      in if 1 \<le> y \<and> y \<le> 9999 then Inr \<lparr>year = y, month = m, day = dd\<rparr>
         else Inl ValueError)"

section \<open>The schedule generator \<^verbatim>\<open>get_due_dates\<close>\<close>

text \<open>
  The \<^verbatim>\<open>while\<close> loop of \<^verbatim>\<open>get_due_dates\<close>, with its two variables
  \<^verbatim>\<open>dates\<close> and \<^verbatim>\<open>current\<close>. The result is \<open>None\<close> when the loop
  never ends, \<open>Some (Inl e)\<close> when the date library raises, and \<open>Some (Inr dates)\<close>
  when the list is returned.
\<close>

partial_function (option) get_due_dates_loop ::
  "int \<Rightarrow> date \<Rightarrow> date list \<Rightarrow> date \<Rightarrow> (error + date list) option" where
  "get_due_dates_loop freq_months until dates current =
     (if date_le current until then
        (case date_add current (relativedelta_months freq_months) of
           Inl e \<Rightarrow> Some (Inl e)
         | Inr nxt \<Rightarrow> get_due_dates_loop freq_months until (dates @ [current]) nxt)
      else Some (Inr dates))"

declare get_due_dates_loop.simps [code]

definition get_due_dates :: "date \<Rightarrow> int \<Rightarrow> date \<Rightarrow> (error + date list) option" where
  "get_due_dates start freq_months until = get_due_dates_loop freq_months until [] start"

section \<open>Parsing the stored start date\<close>

text \<open>
  \<^verbatim>\<open>datetime.strptime(s, '%Y-%m-%d').date()\<close>. The format compiles to the
  regular expression
  \<^verbatim>\<open>(\d\d\d\d)-(1[0-2]|0[1-9]|[1-9])-(3[01]|[12]\d|0[1-9]|[1-9]| [1-9])\<close>,
  matched at the start of the string; input left over after the match, or a triple that
  is not a date, raises \<^verbatim>\<open>ValueError\<close>. Characters are bytes here, so only
  the ASCII digits count as digits.
\<close>

definition is_digit :: "char \<Rightarrow> bool" where
  "is_digit c = (c \<in> set ''0123456789'')"

definition digit_val :: "char \<Rightarrow> int" where
  "digit_val c = of_char c - 48"

fun match_Y :: "string \<Rightarrow> (int \<times> string) option" where
  "match_Y (a # b # c # d # rest) =
     (if is_digit a \<and> is_digit b \<and> is_digit c \<and> is_digit d
      then Some (1000 * digit_val a + 100 * digit_val b + 10 * digit_val c + digit_val d, rest)
      else None)"
| "match_Y _ = None"

fun match_m :: "string \<Rightarrow> (int \<times> string) option" where
  "match_m (a # b # rest) =
     (if a = CHR ''1'' \<and> b \<in> set ''012'' then Some (10 + digit_val b, rest)
      else if a = CHR ''0'' \<and> b \<in> set ''123456789'' then Some (digit_val b, rest)
      else if a \<in> set ''123456789'' then Some (digit_val a, b # rest)
      else None)"
| "match_m [a] = (if a \<in> set ''123456789'' then Some (digit_val a, []) else None)"
| "match_m [] = None"

fun match_d :: "string \<Rightarrow> (int \<times> string) option" where
  "match_d (a # b # rest) =
     (if a = CHR ''3'' \<and> b \<in> set ''01'' then Some (30 + digit_val b, rest)
      else if a \<in> set ''12'' \<and> is_digit b then Some (10 * digit_val a + digit_val b, rest)
      else if a = CHR ''0'' \<and> b \<in> set ''123456789'' then Some (digit_val b, rest)
      else if a \<in> set ''123456789'' then Some (digit_val a, b # rest)
      else if a = CHR '' '' \<and> b \<in> set ''123456789'' then Some (digit_val b, rest)
      else None)"
| "match_d [a] = (if a \<in> set ''123456789'' then Some (digit_val a, []) else None)"
| "match_d [] = None"

fun match_dash :: "string \<Rightarrow> string option" where
  "match_dash (a # rest) = (if a = CHR ''-'' then Some rest else None)"
| "match_dash [] = None"

definition strptime_date :: "string \<Rightarrow> error + date" where
  "strptime_date s =
     (case match_Y s of
        None \<Rightarrow> Inl ValueError
      | Some (y, s1) \<Rightarrow>
     (case match_dash s1 of
        None \<Rightarrow> Inl ValueError
      | Some s2 \<Rightarrow>
     (case match_m s2 of
        None \<Rightarrow> Inl ValueError
      | Some (m, s3) \<Rightarrow>
     (case match_dash s3 of
        None \<Rightarrow> Inl ValueError
      | Some s4 \<Rightarrow>
     (case match_d s4 of
        None \<Rightarrow> Inl ValueError
      | Some (d, s5) \<Rightarrow>
          if s5 = [] \<and> valid_date \<lparr>year = y, month = m, day = d\<rparr>
          then Inr \<lparr>year = y, month = m, day = d\<rparr>
          else Inl ValueError)))))"

section \<open>Rows of the database and the ambient state\<close>

text \<open>
  A row of the \<^verbatim>\<open>tenants\<close> table, in column order, and a row of the
  \<^verbatim>\<open>payments\<close> table. A \<^verbatim>\<open>REAL\<close> column holds an IEEE double; a finite
  double is a real number, and it is stored here as that number. Infinities and NaN are
  not represented.
\<close>

record tenant_row =
  tid :: int
  unit :: string
  name :: string
  phone :: string
  start_str :: string
  end_str :: "string option"
  rent :: real
  freq :: string
  ttype :: string

record payment_row =
  pay_id :: int
  tenant_id :: int
  due_date :: string
  amount_due :: real
  amount_paid :: real
  payment_date :: string
  pay_method :: string

text \<open>
  \<^verbatim>\<open>calculate_status\<close> takes the tenant row as its only argument. It reads the
  current date from \<^verbatim>\<open>date.today()\<close> and the payments through the module-level
  database cursor; both are made explicit here as the state the function runs in.
\<close>

record world =
  today :: date
  payments :: "payment_row list"

definition freq_map :: "(string \<times> int) list" where
  "freq_map = [(''Monthly'', 1), (''Quarterly'', 3), (''Semi-Annual'', 6), (''Annual'', 12)]"

text \<open>\<^verbatim>\<open>freq_map.get(freq, 1)\<close>\<close>

definition freq_months_of :: "string \<Rightarrow> int" where
  "freq_months_of f = (case map_of freq_map f of None \<Rightarrow> 1 | Some m \<Rightarrow> m)"

section \<open>Floating-point arithmetic\<close>

text \<open>
  Comparing two doubles compares the real numbers they stand for, but a product, a
  difference or a sum of doubles is rounded, and the result of SQLite's \<^verbatim>\<open>SUM\<close>
  depends on the engine's summation and on the order in which it visits the rows. These
  rounded operations are parameters of the model: \<open>fl_mul\<close> is the product of two
  floats, \<open>fl_sub\<close> their difference, and \<open>fl_sum\<close> the value of
  \<^verbatim>\<open>SUM\<close> over the amounts of one or more rows, given in the order of the table.
  What is proved for all operations holds for those of the machine.
\<close>

record float_ops =
  fl_mul :: "real \<Rightarrow> real \<Rightarrow> real"
  fl_sub :: "real \<Rightarrow> real \<Rightarrow> real"
  fl_sum :: "real list \<Rightarrow> real"

text \<open>
  The operations without rounding. They agree with the machine's wherever its results
  are exact, as they are on amounts that are whole numbers below \<open>2 ^ 53\<close>.
\<close>

definition exact_ops :: float_ops where
  "exact_ops = \<lparr>fl_mul = (\<lambda>a b. a * b), fl_sub = (\<lambda>a b. a - b), fl_sum = sum_list\<rparr>"

section \<open>The sum of a tenant's payments\<close>

text \<open>
  \<^verbatim>\<open>SELECT SUM(amount_paid) FROM payments WHERE tenant_id=?\<close>: SQL's
  \<^verbatim>\<open>SUM\<close> over no rows is \<^verbatim>\<open>NULL\<close>, which the cursor returns as
  \<^verbatim>\<open>None\<close>.
\<close>

definition select_sum_amount_paid :: "float_ops \<Rightarrow> payment_row list \<Rightarrow> int \<Rightarrow> real option" where
  "select_sum_amount_paid ops ps t =
     (let rows = filter (\<lambda>p. tenant_id p = t) ps
      in if rows = [] then None else Some (fl_sum ops (map amount_paid rows)))"

text \<open>\<^verbatim>\<open>paid = c.fetchone()[0] or 0.0\<close>: \<^verbatim>\<open>None\<close> and zero both give zero.\<close>

definition total_paid_fl :: "float_ops \<Rightarrow> payment_row list \<Rightarrow> int \<Rightarrow> real" where
  "total_paid_fl ops ps t =
     (case select_sum_amount_paid ops ps t of
        None \<Rightarrow> 0
      | Some s \<Rightarrow> if s = 0 then 0 else s)"

section \<open>The aggregate status \<^verbatim>\<open>calculate_status\<close>\<close>

text \<open>
  \<^verbatim>\<open>calculate_status\<close> with the rounded operations as a parameter. The integer
  \<^verbatim>\<open>expected_count\<close> becomes a float before it is multiplied with the rent; a
  count of due dates is far below \<open>2 ^ 53\<close>, so that conversion is exact.
\<close>

definition calculate_status_fl ::
  "float_ops \<Rightarrow> world \<Rightarrow> tenant_row \<Rightarrow> (error + real \<times> string) option" where
  "calculate_status_fl ops w tenant_row =
     (case strptime_date (start_str tenant_row) of
        Inl e \<Rightarrow> Some (Inl e)
      | Inr start \<Rightarrow>
     (let freq_m = freq_months_of (freq tenant_row)
      in case get_due_dates start freq_m (today w) of
           None \<Rightarrow> None
         | Some (Inl e) \<Rightarrow> Some (Inl e)
         | Some (Inr due_dates) \<Rightarrow>
     (let expected_count = length due_dates;
          expected_amount = fl_mul ops (real expected_count) (rent tenant_row);
          paid = total_paid_fl ops (payments w) (tid tenant_row);
          balance = fl_sub ops expected_amount paid
      in if balance \<le> 0 then Some (Inr (balance, ''Paid''))
         else if list_ex (\<lambda>d. date_lt d (today w)) due_dates
           then Some (Inr (balance, ''Overdue''))
         else
           (case date_add start (relativedelta_months (freq_m * int expected_count)) of
              Inl e \<Rightarrow> Some (Inl e)
            | Inr next_due \<Rightarrow>
                if days_between next_due (today w) \<le> 7
                then Some (Inr (balance, ''Due Soon''))
                else Some (Inr (balance, ''Unpaid''))))))"

text \<open>The same with the operations that do not round.\<close>

definition total_paid :: "payment_row list \<Rightarrow> int \<Rightarrow> real" where
  "total_paid ps t = total_paid_fl exact_ops ps t"

definition calculate_status :: "world \<Rightarrow> tenant_row \<Rightarrow> (error + real \<times> string) option" where
  "calculate_status w tenant_row = calculate_status_fl exact_ops w tenant_row"

section \<open>The status of one payment record\<close>

text \<open>
  The status that the \<^verbatim>\<open>Add Payment\<close> form of the dashboard stores with a new
  record, from the amounts and dates entered in the form.
\<close>

definition add_payment_status :: "real \<Rightarrow> real \<Rightarrow> date \<Rightarrow> date \<Rightarrow> string" where
  "add_payment_status amount_due_in amount_paid_in due_date_in payment_date_in =
     (if amount_paid_in = amount_due_in then ''Paid''
      else if amount_paid_in = 0 then ''Unpaid''
      else if date_lt due_date_in payment_date_in then ''Overdue''
      else ''Partial'')"

section \<open>Auxiliary notions\<close>

text \<open>
  The position of a date's month on the line of all months, and the date that lies
  \<open>n\<close> months away with its day clamped to the length of the target month. Neither
  occurs in the program; both serve to state what its month arithmetic computes.
\<close>

definition month_index :: "date \<Rightarrow> int" where
  "month_index d = year d * 12 + month d - 1"

definition month_shift :: "date \<Rightarrow> int \<Rightarrow> date" where
  "month_shift d n =
     (let i = month_index d + n; y = i div 12; m = i mod 12 + 1
      in \<lparr>year = y, month = m, day = min (days_in_month y m) (day d)\<rparr>)"

text \<open>
  The date reached after \<open>n\<close> rounds of the generator's loop, each round moving
  the current date by \<open>f\<close> months, and the list of the first \<open>n\<close> such dates.
\<close>

definition step_date :: "int \<Rightarrow> date \<Rightarrow> nat \<Rightarrow> date" where
  "step_date f d n = ((\<lambda>x. month_shift x f) ^^ n) d"

definition step_dates :: "int \<Rightarrow> date \<Rightarrow> nat \<Rightarrow> date list" where
  "step_dates f d n = map (step_date f d) [0..<n]"

section \<open>Month arithmetic in closed form\<close>

lemma divmod_lin:
  fixes a b :: int
  assumes "0 \<le> b" "b < 12"
  shows "(12 * a + b) div 12 = a" and "(12 * a + b) mod 12 = b"
  using assms by simp_all

lemma ym_aux:
  fixes y m q r :: int
  assumes "1 \<le> m" "m \<le> 12" "-12 < r" "r < 12"
  shows "(y * 12 + m - 1 + (12 * q + r)) div 12 =
           (if m + r > 12 then y + q + 1 else if m + r < 1 then y + q - 1 else y + q)"
    and "(y * 12 + m - 1 + (12 * q + r)) mod 12 + 1 =
           (if m + r > 12 then m + r - 12 else if m + r < 1 then m + r + 12 else m + r)"
proof -
  let ?e = "y * 12 + m - 1 + (12 * q + r)"
  consider "m + r > 12" | "m + r < 1" | "1 \<le> m + r \<and> m + r \<le> 12" by linarith
  then have "?e div 12 =
           (if m + r > 12 then y + q + 1 else if m + r < 1 then y + q - 1 else y + q) \<and>
     ?e mod 12 + 1 =
           (if m + r > 12 then m + r - 12 else if m + r < 1 then m + r + 12 else m + r)"
  proof cases
    case 1
    have e: "?e = 12 * (y + q + 1) + (m + r - 13)" by simp
    have b: "0 \<le> m + r - 13" "m + r - 13 < 12" using 1 assms by linarith+
    have "?e div 12 = y + q + 1" "?e mod 12 = m + r - 13"
      unfolding e by (rule divmod_lin[OF b])+
    with 1 show ?thesis by simp
  next
    case 2
    have e: "?e = 12 * (y + q - 1) + (m + r + 11)" by simp
    have b: "0 \<le> m + r + 11" "m + r + 11 < 12" using 2 assms by linarith+
    have "?e div 12 = y + q - 1" "?e mod 12 = m + r + 11"
      unfolding e by (rule divmod_lin[OF b])+
    with 2 show ?thesis by simp
  next
    case 3
    have e: "?e = 12 * (y + q) + (m + r - 1)" by simp
    have b: "0 \<le> m + r - 1" "m + r - 1 < 12" using 3 assms by linarith+
    have "?e div 12 = y + q" "?e mod 12 = m + r - 1"
      unfolding e by (rule divmod_lin[OF b])+
    with 3 show ?thesis by simp
  qed
  then show "?e div 12 =
           (if m + r > 12 then y + q + 1 else if m + r < 1 then y + q - 1 else y + q)"
    and "?e mod 12 + 1 =
           (if m + r > 12 then m + r - 12 else if m + r < 1 then m + r + 12 else m + r)"
    by simp_all
qed

lemma relativedelta_months_split:
  "n = 12 * years (relativedelta_months n) + months (relativedelta_months n) \<and>
   -12 < months (relativedelta_months n) \<and> months (relativedelta_months n) < 12"
proof -
  consider "\<bar>n\<bar> \<le> 11" | "n > 11" | "n < -11" by linarith
  then show ?thesis
  proof cases
    case 1
    then show ?thesis by (simp add: relativedelta_months_def abs_le_iff)
  next
    case 2
    have "n = 12 * (n div 12) + n mod 12" by simp
    moreover have "0 \<le> n mod 12" "n mod 12 < 12" by simp_all
    ultimately show ?thesis using 2 by (simp add: relativedelta_months_def Let_def)
  next
    case 3
    define q r where "q = (- n) div 12" and "r = (- n) mod 12"
    have d: "- n = 12 * q + r" and b: "0 \<le> r" "r < 12"
      by (simp_all add: q_def r_def)
    have "years (relativedelta_months n) = - q" "months (relativedelta_months n) = - r"
      using 3 by (simp_all add: relativedelta_months_def Let_def q_def r_def)
    then show ?thesis using d b by linarith
  qed
qed

lemma date_add_eq:
  assumes "1 \<le> month d" "month d \<le> 12"
  shows "date_add d (relativedelta_months n) =
     (if 1 \<le> year (month_shift d n) \<and> year (month_shift d n) \<le> 9999
      then Inr (month_shift d n) else Inl ValueError)"
proof -
  let ?rd = "relativedelta_months n"
  have n: "n = 12 * years ?rd + months ?rd" and r: "-12 < months ?rd" "months ?rd < 12"
    using relativedelta_months_split[of n] by simp_all
  have i: "month_index d + n = year d * 12 + month d - 1 + (12 * years ?rd + months ?rd)"
    using n by (simp add: month_index_def)
  note s = ym_aux[OF assms r, of "year d" "years ?rd"]
  show ?thesis
    unfolding date_add_def month_shift_def Let_def i s
    by (simp add: add.commute)
qed

section \<open>Order of dates and clamped month shifts\<close>

lemma date_le_refl: "date_le a a"
  by (simp add: date_le_def)

lemma date_le_trans: "date_le a b \<Longrightarrow> date_le b c \<Longrightarrow> date_le a c"
  unfolding date_le_def by linarith

lemma date_lt_imp_le: "date_lt a b \<Longrightarrow> date_le a b"
  unfolding date_le_def date_lt_def by linarith

lemma not_date_le: "(\<not> date_le a b) = date_lt b a"
  unfolding date_le_def date_lt_def by linarith

lemma date_lt_irrefl: "\<not> date_lt a a"
  by (simp add: date_lt_def)

lemma date_le_month_index:
  assumes "date_le a b" "month a \<le> 12" "1 \<le> month b"
  shows "month_index a \<le> month_index b"
  using assms unfolding date_le_def month_index_def by linarith

lemma month_index_less_date_lt:
  assumes "month_index a < month_index b" "1 \<le> month a" "month b \<le> 12"
  shows "date_lt a b"
  using assms unfolding date_lt_def month_index_def by linarith

lemma month_shift_month: "1 \<le> month (month_shift d n)" "month (month_shift d n) \<le> 12"
  by (simp_all add: month_shift_def Let_def)

lemma month_index_shift: "month_index (month_shift d n) = month_index d + n"
  by (simp add: month_shift_def Let_def month_index_def[of "\<lparr>year = _, month = _, day = _\<rparr>"])

lemma days_in_month_ge: "28 \<le> days_in_month y m"
  by (simp add: days_in_month_def mdays_def)

lemma days_in_month_le: "days_in_month y m \<le> 31"
  by (simp add: days_in_month_def mdays_def)

lemma month_shift_day: "day (month_shift d n) = min (days_in_month (year (month_shift d n)) (month (month_shift d n))) (day d)"
  by (simp add: month_shift_def Let_def)


lemma month_shift_zero:
  assumes "valid_date d"
  shows "month_shift d 0 = d"
proof -
  have m: "1 \<le> month d" "month d \<le> 12" using assms by (simp_all add: valid_date_def)
  have e: "year d * 12 + month d - 1 = 12 * year d + (month d - 1)" by simp
  have "(year d * 12 + month d - 1) div 12 = year d" "(year d * 12 + month d - 1) mod 12 = month d - 1"
    unfolding e using m by (simp_all add: divmod_lin)
  then show ?thesis using assms
    by (simp add: month_shift_def month_index_def valid_date_def)
qed

lemma date_add_valid:
  assumes "valid_date d" "date_add d (relativedelta_months n) = Inr d'"
  shows "valid_date d'" and "d' = month_shift d n"
proof -
  have m: "1 \<le> month d" "month d \<le> 12" using assms by (simp_all add: valid_date_def)
  from assms(2) show e: "d' = month_shift d n"
    by (simp add: date_add_eq[OF m] split: if_splits)
  from assms(2) have y: "1 \<le> year d'" "year d' \<le> 9999"
    by (simp_all add: date_add_eq[OF m] split: if_splits)
  show "valid_date d'"
    using y assms(1) month_shift_month[of d n] days_in_month_ge[of "year d'" "month d'"]
    unfolding valid_date_def e month_shift_day by simp
qed

lemma strptime_date_valid: "strptime_date s = Inr d \<Longrightarrow> valid_date d"
  by (auto simp: strptime_date_def split: option.splits prod.splits if_splits)

section \<open>The loop of the schedule generator\<close>

lemma step_date_0: "step_date f d 0 = d"
  by (simp add: step_date_def)

lemma step_date_Suc: "step_date f d (Suc n) = step_date f (month_shift d f) n"
  by (simp add: step_date_def funpow_swap1 del: funpow.simps add: funpow_Suc_right)

lemma step_date_Suc': "step_date f d (Suc n) = month_shift (step_date f d n) f"
  by (simp add: step_date_def)

lemma step_dates_0: "step_dates f d 0 = []"
  by (simp add: step_dates_def)

lemma step_dates_Suc: "step_dates f d (Suc n) = d # step_dates f (month_shift d f) n"
  unfolding step_dates_def
  by (simp add: map_upt_Suc step_date_0 step_date_Suc del: upt_Suc)

lemma length_step_dates: "length (step_dates f d n) = n"
  by (simp add: step_dates_def)


lemma month_index_step_date: "month_index (step_date f d n) = month_index d + int n * f"
  by (induction n) (simp_all add: step_date_0 step_date_Suc' month_index_shift algebra_simps)

lemma loop_step:
  assumes "valid_date cur" "date_le cur until"
  shows "get_due_dates_loop f until acc cur =
     (if year (month_shift cur f) \<le> 9999 \<and> 1 \<le> year (month_shift cur f)
      then get_due_dates_loop f until (acc @ [cur]) (month_shift cur f)
      else Some (Inl ValueError))"
proof -
  have m: "1 \<le> month cur" "month cur \<le> 12" using assms by (simp_all add: valid_date_def)
  show ?thesis
    by (subst get_due_dates_loop.simps) (simp add: assms date_add_eq[OF m])
qed

lemma loop_exit:
  assumes "\<not> date_le cur until"
  shows "get_due_dates_loop f until acc cur = Some (Inr acc)"
  by (subst get_due_dates_loop.simps) (simp add: assms)

lemma month_shift_valid:
  assumes "valid_date d" "1 \<le> year (month_shift d n)" "year (month_shift d n) \<le> 9999"
  shows "valid_date (month_shift d n)"
proof -
  have m: "1 \<le> month d" "month d \<le> 12" using assms by (simp_all add: valid_date_def)
  have "date_add d (relativedelta_months n) = Inr (month_shift d n)"
    using assms by (simp add: date_add_eq[OF m])
  from date_add_valid(1)[OF assms(1) this] show ?thesis .
qed

lemmas loop_induct = get_due_dates_loop.raw_induct[rotated 1, consumes 1, case_names step]

lemma loop_result:
  assumes "get_due_dates_loop f until acc cur = Some r" "valid_date cur"
  shows "case r of
           Inl e \<Rightarrow> True
         | Inr ds \<Rightarrow> (\<exists>n. ds = acc @ step_dates f cur n \<and>
                (\<forall>k<n. date_le (step_date f cur k) until \<and> valid_date (step_date f cur k)) \<and>
                \<not> date_le (step_date f cur n) until \<and> valid_date (step_date f cur n))"
  using assms
proof (induction f until acc cur r rule: loop_induct)
  case (step loop f until acc cur r)
  note 1 = step
  show ?case
  proof (cases "date_le cur until")
    case False
    with 1(2) have r: "r = Inr acc" by simp
    have "acc = acc @ step_dates f cur 0 \<and>
          (\<forall>k<0. date_le (step_date f cur k) until \<and> valid_date (step_date f cur k)) \<and>
          \<not> date_le (step_date f cur 0) until \<and> valid_date (step_date f cur 0)"
      using False 1(3) by (simp add: step_dates_0 step_date_0)
    then show ?thesis unfolding r by (simp only: sum.case) blast
  next
    case True
    have m: "1 \<le> month cur" "month cur \<le> 12" using 1(3) by (simp_all add: valid_date_def)
    show ?thesis
    proof (cases "year (month_shift cur f) \<le> 9999 \<and> 1 \<le> year (month_shift cur f)")
      case False
      with 1(2) True have "r = Inl ValueError" by (auto simp add: date_add_eq[OF m])
      then show ?thesis by simp
    next
      case y: True
      let ?nxt = "month_shift cur f"
      have v: "valid_date ?nxt" using month_shift_valid[OF 1(3)] y by simp
      from 1(2) True y have "loop f until (acc @ [cur]) ?nxt = Some r"
        by (simp add: date_add_eq[OF m])
      from 1(1)[OF this v] have ih: "case r of Inl e \<Rightarrow> True
         | Inr ds \<Rightarrow> (\<exists>n. ds = (acc @ [cur]) @ step_dates f ?nxt n \<and>
                (\<forall>k<n. date_le (step_date f ?nxt k) until \<and> valid_date (step_date f ?nxt k)) \<and>
                \<not> date_le (step_date f ?nxt n) until \<and> valid_date (step_date f ?nxt n))" .
      show ?thesis
      proof (cases r)
        case (Inl e)
        then show ?thesis by simp
      next
        case (Inr ds)
        with ih obtain n where n: "ds = (acc @ [cur]) @ step_dates f ?nxt n"
          "\<forall>k<n. date_le (step_date f ?nxt k) until \<and> valid_date (step_date f ?nxt k)"
          "\<not> date_le (step_date f ?nxt n) until" "valid_date (step_date f ?nxt n)"
          by auto
        have a: "ds = acc @ step_dates f cur (Suc n)" using n(1) by (simp add: step_dates_Suc)
        have b: "\<forall>k<Suc n. date_le (step_date f cur k) until \<and> valid_date (step_date f cur k)"
        proof (intro allI impI)
          fix k assume "k < Suc n"
          show "date_le (step_date f cur k) until \<and> valid_date (step_date f cur k)"
          proof (cases k)
            case 0
            then show ?thesis using True 1(3) by (simp add: step_date_0)
          next
            case (Suc j)
            then show ?thesis using n(2) \<open>k < Suc n\<close> by (simp add: step_date_Suc)
          qed
        qed
        have c: "\<not> date_le (step_date f cur (Suc n)) until" "valid_date (step_date f cur (Suc n))"
          using n(3,4) by (simp_all add: step_date_Suc)
        show ?thesis unfolding Inr using a b c by (simp only: sum.case) blast
      qed
    qed
  qed
qed

section \<open>Termination of the loop\<close>

lemma loop_terminates_pos:
  assumes "0 < f" "valid_date until" "valid_date cur"
  shows "\<exists>r. get_due_dates_loop f until acc cur = Some r"
  using assms(3)
proof (induction "nat (month_index until + 1 - month_index cur)" arbitrary: cur acc rule: less_induct)
  case less
  show ?case
  proof (cases "date_le cur until")
    case False
    then show ?thesis by (simp add: loop_exit)
  next
    case True
    let ?nxt = "month_shift cur f"
    show ?thesis
    proof (cases "year ?nxt \<le> 9999 \<and> 1 \<le> year ?nxt")
      case False
      then show ?thesis using loop_step[OF less(2) True, of f acc] by auto
    next
      case y: True
      have v: "valid_date ?nxt" using month_shift_valid[OF less(2)] y by simp
      have "month_index cur \<le> month_index until"
        using date_le_month_index[OF True] less(2) assms(2) by (simp add: valid_date_def)
      then have "nat (month_index until + 1 - month_index ?nxt) < nat (month_index until + 1 - month_index cur)"
        using assms(1) by (simp add: month_index_shift)
      from less(1)[OF this v] show ?thesis
        using loop_step[OF less(2) True, of f acc] y by simp
    qed
  qed
qed

lemma loop_returns:
  assumes "0 < f" "valid_date until" "valid_date cur" "I cur"
    and inv: "\<And>d. I d \<Longrightarrow> valid_date d \<Longrightarrow> date_le d until \<Longrightarrow>
                 year (month_shift d f) \<le> 9999 \<and> I (month_shift d f)"
  shows "\<exists>ds. get_due_dates_loop f until acc cur = Some (Inr ds)"
  using assms(3,4)
proof (induction "nat (month_index until + 1 - month_index cur)" arbitrary: cur acc rule: less_induct)
  case less
  show ?case
  proof (cases "date_le cur until")
    case False
    then show ?thesis by (simp add: loop_exit)
  next
    case True
    let ?nxt = "month_shift cur f"
    have i: "year ?nxt \<le> 9999" "I ?nxt" using inv[OF less(3) less(2) True] by simp_all
    have "month_index cur \<le> month_index ?nxt" using assms(1) by (simp add: month_index_shift)
    then have "year cur \<le> year ?nxt"
      using less(2) month_shift_month[of cur f] unfolding month_index_def valid_date_def by linarith
    then have y: "1 \<le> year ?nxt" using less(2) by (simp add: valid_date_def)
    have v: "valid_date ?nxt" using month_shift_valid[OF less(2)] y i by simp
    have "month_index cur \<le> month_index until"
      using date_le_month_index[OF True] less(2) assms(2) by (simp add: valid_date_def)
    then have "nat (month_index until + 1 - month_index ?nxt) < nat (month_index until + 1 - month_index cur)"
      using assms(1) by (simp add: month_index_shift)
    from less(1)[OF this v i(2)] show ?thesis
      using loop_step[OF less(2) True, of f acc] y i by simp
  qed
qed


lemma loop_diverges_zero:
  assumes "valid_date cur" "date_le cur until"
  shows "get_due_dates_loop 0 until acc cur = None"
proof (rule ccontr)
  assume "get_due_dates_loop 0 until acc cur \<noteq> None"
  then obtain r where "get_due_dates_loop 0 until acc cur = Some r" by auto
  then have "\<not> (valid_date cur \<and> date_le cur until)"
  proof (induction "0::int" until acc cur r rule: loop_induct)
    case (step loop until acc cur r)
    show ?case
    proof
      assume a: "valid_date cur \<and> date_le cur until"
      then have m: "1 \<le> month cur" "month cur \<le> 12" by (simp_all add: valid_date_def)
      have y: "1 \<le> year cur" "year cur \<le> 9999" using a by (simp_all add: valid_date_def)
      from step(2) a y have "loop 0 until (acc @ [cur]) cur = Some r"
        by (simp add: date_add_eq[OF m] month_shift_zero)
      from step(1)[OF this] a show False by simp
    qed
  qed
  with assms show False by simp
qed

lemma loop_raises_neg:
  assumes "f < 0" "valid_date cur" "date_le cur until"
  shows "get_due_dates_loop f until acc cur = Some (Inl ValueError)"
  using assms(2,3)
proof (induction "nat (month_index cur)" arbitrary: cur acc rule: less_induct)
  case less
  let ?nxt = "month_shift cur f"
  show ?case
  proof (cases "year ?nxt \<le> 9999 \<and> 1 \<le> year ?nxt")
    case False
    then show ?thesis using loop_step[OF less(2,3), of f acc] by auto
  next
    case y: True
    have v: "valid_date ?nxt" using month_shift_valid[OF less(2)] y by simp
    have lt: "month_index ?nxt < month_index cur" using assms(1) by (simp add: month_index_shift)
    have "date_lt ?nxt cur"
      using month_index_less_date_lt[OF lt] v less(2) by (simp add: valid_date_def)
    then have le: "date_le ?nxt until" using less(3) date_le_trans date_lt_imp_le by blast
    have "0 \<le> month_index ?nxt" using v unfolding month_index_def valid_date_def by linarith
    then have "nat (month_index ?nxt) < nat (month_index cur)" using lt by simp
    from less(1)[OF this v le] show ?thesis
      using loop_step[OF less(2,3), of f acc] y by simp
  qed
qed

section \<open>The schedule generator as a whole\<close>

lemma month_index_inj:
  assumes "month_index a = month_index b" "1 \<le> month a" "month a \<le> 12" "1 \<le> month b" "month b \<le> 12"
  shows "year a = year b" and "month a = month b"
proof -
  show y: "year a = year b" using assms unfolding month_index_def by linarith
  show "month a = month b" using assms y unfolding month_index_def by simp
qed

lemma step_date_year_month:
  assumes "valid_date (step_date f d n)" "valid_date d"
  shows "year (month_shift d (f * int n)) = year (step_date f d n)"
    and "month (month_shift d (f * int n)) = month (step_date f d n)"
proof -
  have "month_index (month_shift d (f * int n)) = month_index (step_date f d n)"
    by (simp add: month_index_shift month_index_step_date mult.commute)
  from month_index_inj[OF this month_shift_month]
  show "year (month_shift d (f * int n)) = year (step_date f d n)"
    and "month (month_shift d (f * int n)) = month (step_date f d n)"
    using assms(1) by (simp_all add: valid_date_def)
qed

lemma get_due_dates_result:
  assumes "get_due_dates start f until = Some (Inr ds)" "valid_date start"
  shows "ds = step_dates f start (length ds)"
    and "\<forall>k<length ds. date_le (step_date f start k) until \<and> valid_date (step_date f start k)"
    and "\<not> date_le (step_date f start (length ds)) until"
    and "valid_date (step_date f start (length ds))"
proof -
  from loop_result[OF assms(1)[unfolded get_due_dates_def] assms(2)]
  obtain n where n: "ds = step_dates f start n"
    "\<forall>k<n. date_le (step_date f start k) until \<and> valid_date (step_date f start k)"
    "\<not> date_le (step_date f start n) until" "valid_date (step_date f start n)"
    by auto
  have l: "length ds = n" using n(1) by (simp add: length_step_dates)
  show "ds = step_dates f start (length ds)"
    and "\<forall>k<length ds. date_le (step_date f start k) until \<and> valid_date (step_date f start k)"
    and "\<not> date_le (step_date f start (length ds)) until"
    and "valid_date (step_date f start (length ds))"
    using n unfolding l by simp_all
qed

lemma next_due_defined:
  assumes "get_due_dates start f until = Some (Inr ds)" "valid_date start"
  shows "date_add start (relativedelta_months (f * int (length ds))) =
           Inr (month_shift start (f * int (length ds)))"
proof -
  have m: "1 \<le> month start" "month start \<le> 12" using assms(2) by (simp_all add: valid_date_def)
  have v: "valid_date (step_date f start (length ds))"
    by (rule get_due_dates_result(4)[OF assms])
  have "year (month_shift start (f * int (length ds))) = year (step_date f start (length ds))"
    by (rule step_date_year_month(1)[OF v assms(2)])
  then have "1 \<le> year (month_shift start (f * int (length ds)))"
    "year (month_shift start (f * int (length ds))) \<le> 9999"
    using v by (simp_all add: valid_date_def)
  then show ?thesis by (simp add: date_add_eq[OF m])
qed

lemma freq_months_of_pos: "0 < freq_months_of s"
  by (simp add: freq_months_of_def freq_map_def)

lemma freq_months_of_cases: "freq_months_of s \<in> {1, 3, 6, 12}"
  by (simp add: freq_months_of_def freq_map_def)

lemma get_due_dates_terminates:
  assumes "0 < f" "valid_date until" "valid_date start"
  shows "\<exists>r. get_due_dates start f until = Some r"
  unfolding get_due_dates_def by (rule loop_terminates_pos[OF assms])


lemma list_ex_set: "list_ex P xs = (\<exists>x\<in>set xs. P x)"
  by (simp add: list_ex_iff)

lemma total_paid_sum:
  "total_paid ps t = sum_list (map amount_paid (filter (\<lambda>p. tenant_id p = t) ps))"
  by (simp add: total_paid_def total_paid_fl_def select_sum_amount_paid_def exact_ops_def Let_def)

lemma calculate_status_exact:
  "calculate_status w tenant_row =
     (case strptime_date (start_str tenant_row) of
        Inl e \<Rightarrow> Some (Inl e)
      | Inr start \<Rightarrow>
     (let freq_m = freq_months_of (freq tenant_row)
      in case get_due_dates start freq_m (today w) of
           None \<Rightarrow> None
         | Some (Inl e) \<Rightarrow> Some (Inl e)
         | Some (Inr due_dates) \<Rightarrow>
     (let expected_count = length due_dates;
          expected_amount = real expected_count * rent tenant_row;
          paid = total_paid (payments w) (tid tenant_row);
          balance = expected_amount - paid
      in if balance \<le> 0 then Some (Inr (balance, ''Paid''))
         else if list_ex (\<lambda>d. date_lt d (today w)) due_dates
           then Some (Inr (balance, ''Overdue''))
         else
           (case date_add start (relativedelta_months (freq_m * int expected_count)) of
              Inl e \<Rightarrow> Some (Inl e)
            | Inr next_due \<Rightarrow>
                if days_between next_due (today w) \<le> 7
                then Some (Inr (balance, ''Due Soon''))
                else Some (Inr (balance, ''Unpaid''))))))"
proof -
  have m: "fl_mul exact_ops = (\<lambda>a b. a * b)" and d: "fl_sub exact_ops = (\<lambda>a b. a - b)"
    by (simp_all add: exact_ops_def)
  show ?thesis
    unfolding calculate_status_def calculate_status_fl_def total_paid_def m d
    by (rule refl)
qed



section \<open>The order of the tests for one payment record\<close>

text \<open>
  C4: the form tests, in this order, whether the amount paid equals the amount due (Paid),
  whether the amount paid is zero (Unpaid), whether the payment date is after the due
  date (Overdue), and otherwise reports Partial.
\<close>

theorem add_payment_status_cases:
  "(paid = due \<longrightarrow> add_payment_status due paid due_d pay_d = ''Paid'') \<and>
   (paid \<noteq> due \<and> paid = 0 \<longrightarrow> add_payment_status due paid due_d pay_d = ''Unpaid'') \<and>
   (paid \<noteq> due \<and> paid \<noteq> 0 \<and> date_lt due_d pay_d \<longrightarrow>
      add_payment_status due paid due_d pay_d = ''Overdue'') \<and>
   (paid \<noteq> due \<and> paid \<noteq> 0 \<and> \<not> date_lt due_d pay_d \<longrightarrow>
      add_payment_status due paid due_d pay_d = ''Partial'')"
  by (simp add: add_payment_status_def)

theorem add_payment_status_cases_witness:
  "add_payment_status 1000 1000 \<lparr>year = 2024, month = 1, day = 1\<rparr>
      \<lparr>year = 2024, month = 1, day = 2\<rparr> = ''Paid'' \<and>
   add_payment_status 1000 0 \<lparr>year = 2024, month = 1, day = 1\<rparr>
      \<lparr>year = 2024, month = 1, day = 2\<rparr> = ''Unpaid'' \<and>
   add_payment_status 1000 500 \<lparr>year = 2024, month = 1, day = 1\<rparr>
      \<lparr>year = 2024, month = 1, day = 2\<rparr> = ''Overdue'' \<and>
   add_payment_status 1000 500 \<lparr>year = 2024, month = 1, day = 1\<rparr>
      \<lparr>year = 2024, month = 1, day = 1\<rparr> = ''Partial''"
proof -
  let ?d1 = "\<lparr>year = 2024, month = 1, day = 1\<rparr>"
  let ?d2 = "\<lparr>year = 2024, month = 1, day = 2\<rparr>"
  have lt: "date_lt ?d1 ?d2" "\<not> date_lt ?d1 ?d1" by (simp_all add: date_lt_def)
  show ?thesis
    using add_payment_status_cases[of 1000 1000 ?d1 ?d2]
      add_payment_status_cases[of 0 1000 ?d1 ?d2]
      add_payment_status_cases[of 500 1000 ?d1 ?d2]
      add_payment_status_cases[of 500 1000 ?d1 ?d1] lt
    by simp
qed

text \<open>
  C10: the test for Paid comes first, so a record with nothing due and nothing paid is
  reported as Paid, whatever its dates.
\<close>

theorem add_payment_status_zero_due:
  "add_payment_status 0 0 due_d pay_d = ''Paid'' \<and> add_payment_status 0 0 due_d pay_d \<noteq> ''Unpaid''"
  by (simp add: add_payment_status_def)

section \<open>The sum of the payments\<close>

text \<open>
  Whatever the rounding of \<^verbatim>\<open>SUM\<close>, the amount paid is zero when the tenant has
  no payments, and the dates of the payments do not enter it. Whether it depends on the
  order of the rows is a property of the engine's floating-point summation, which this
  model leaves open.
\<close>

lemma total_paid_fl_no_rows: "total_paid_fl ops [] t = 0"
  by (simp add: total_paid_fl_def select_sum_amount_paid_def)

lemma total_paid_fl_ignores_dates:
  "total_paid_fl ops (map (\<lambda>p. p\<lparr>due_date := dd p, payment_date := pd p\<rparr>) ps) t =
   total_paid_fl ops ps t"
proof -
  have "map amount_paid (filter (\<lambda>p. tenant_id p = t)
          (map (\<lambda>p. p\<lparr>due_date := dd p, payment_date := pd p\<rparr>) ps)) =
        map amount_paid (filter (\<lambda>p. tenant_id p = t) ps)"
    by (induction ps) simp_all
  moreover have "(filter (\<lambda>p. tenant_id p = t)
          (map (\<lambda>p. p\<lparr>due_date := dd p, payment_date := pd p\<rparr>) ps) = []) =
        (filter (\<lambda>p. tenant_id p = t) ps = [])"
    by (induction ps) simp_all
  ultimately show ?thesis
    by (simp add: total_paid_fl_def select_sum_amount_paid_def Let_def)
qed

section \<open>Strictness of the overdue test\<close>

text \<open>
  C5: a due date counts as overdue only when it is strictly before today, so a schedule
  none of whose dates is strictly before today (as when its only date is today) never
  gives Overdue. For a tenant who starts on 2024-01-01 and pays 1000 monthly, with no
  payments, on 2024-01-01 the schedule is that one date, the balance is 1000, the next due
  date 2024-02-01 is 31 days away, and the status is Unpaid.
\<close>

theorem overdue_is_strict:
  "\<not> date_lt d d \<and>
   (strptime_date (start_str row) = Inr start \<longrightarrow>
    get_due_dates start (freq_months_of (freq row)) (today w) = Some (Inr ds) \<longrightarrow>
    (\<forall>x\<in>set ds. \<not> date_lt x (today w)) \<longrightarrow>
    calculate_status w row = Some (Inr (b, s)) \<longrightarrow> s \<noteq> ''Overdue'') \<and>
   get_due_dates \<lparr>year = 2024, month = 1, day = 1\<rparr> 1 \<lparr>year = 2024, month = 1, day = 1\<rparr>
     = Some (Inr [\<lparr>year = 2024, month = 1, day = 1\<rparr>]) \<and>
   date_add \<lparr>year = 2024, month = 1, day = 1\<rparr> (relativedelta_months 1)
     = Inr \<lparr>year = 2024, month = 2, day = 1\<rparr> \<and>
   days_between \<lparr>year = 2024, month = 2, day = 1\<rparr> \<lparr>year = 2024, month = 1, day = 1\<rparr> = 31 \<and>
   calculate_status \<lparr>today = \<lparr>year = 2024, month = 1, day = 1\<rparr>, payments = []\<rparr>
     \<lparr>tid = i, unit = u, name = n, phone = p, start_str = ''2024-01-01'', end_str = e,
      rent = 1000, freq = ''Monthly'', ttype = t\<rparr> = Some (Inr (1000, ''Unpaid''))"
proof (intro conjI impI)
  let ?jan1 = "\<lparr>year = 2024, month = 1, day = 1\<rparr>"
  let ?feb1 = "\<lparr>year = 2024, month = 2, day = 1\<rparr>"
  show "\<not> date_lt d d" by (rule date_lt_irrefl)
  show "s \<noteq> ''Overdue''"
    if "strptime_date (start_str row) = Inr start"
      and "get_due_dates start (freq_months_of (freq row)) (today w) = Some (Inr ds)"
      and "\<forall>x\<in>set ds. \<not> date_lt x (today w)"
      and "calculate_status w row = Some (Inr (b, s))"
    using that(4) that(3)
    by (auto simp add: calculate_status_exact that(1) that(2) Let_def list_ex_set
        split: if_splits sum.splits)
  show g: "get_due_dates ?jan1 1 ?jan1 = Some (Inr [?jan1])" by code_simp
  show a: "date_add ?jan1 (relativedelta_months 1) = Inr ?feb1" by code_simp
  show b: "days_between ?feb1 ?jan1 = 31" by code_simp
  have p: "strptime_date ''2024-01-01'' = Inr ?jan1" by code_simp
  have f: "freq_months_of ''Monthly'' = 1" by code_simp
  have l: "\<not> date_lt ?jan1 ?jan1" by (rule date_lt_irrefl)
  have tp: "total_paid [] i = 0" by (simp add: total_paid_sum)
  show "calculate_status \<lparr>today = ?jan1, payments = []\<rparr>
     \<lparr>tid = i, unit = u, name = n, phone = p, start_str = ''2024-01-01'', end_str = e,
      rent = 1000, freq = ''Monthly'', ttype = t\<rparr> = Some (Inr (1000, ''Unpaid''))"
    by (simp add: calculate_status_exact p f g a b l tp Let_def)
qed

theorem overdue_is_strict_witness:
  "strptime_date (start_str \<lparr>tid = 1, unit = ''A1'', name = ''N'', phone = ''5'',
       start_str = ''2024-01-01'', end_str = None, rent = 1000, freq = ''Monthly'',
       ttype = ''Residential''\<rparr>) = Inr \<lparr>year = 2024, month = 1, day = 1\<rparr> \<and>
   get_due_dates \<lparr>year = 2024, month = 1, day = 1\<rparr>
     (freq_months_of (freq \<lparr>tid = 1, unit = ''A1'', name = ''N'', phone = ''5'',
       start_str = ''2024-01-01'', end_str = None, rent = 1000, freq = ''Monthly'',
       ttype = ''Residential''\<rparr>))
     (today \<lparr>today = \<lparr>year = 2024, month = 1, day = 1\<rparr>, payments = []\<rparr>)
     = Some (Inr [\<lparr>year = 2024, month = 1, day = 1\<rparr>]) \<and>
   \<not> date_lt \<lparr>year = 2024, month = 1, day = 1\<rparr>
      (today \<lparr>today = \<lparr>year = 2024, month = 1, day = 1\<rparr>, payments = []\<rparr>) \<and>
   calculate_status \<lparr>today = \<lparr>year = 2024, month = 1, day = 1\<rparr>, payments = []\<rparr>
     \<lparr>tid = 1, unit = ''A1'', name = ''N'', phone = ''5'',
       start_str = ''2024-01-01'', end_str = None, rent = 1000, freq = ''Monthly'',
       ttype = ''Residential''\<rparr> = Some (Inr (1000, ''Unpaid'')) \<and>
   ''Unpaid'' \<noteq> ''Overdue''"
proof -
  let ?row = "\<lparr>tid = 1, unit = ''A1'', name = ''N'', phone = ''5'',
       start_str = ''2024-01-01'', end_str = None, rent = 1000, freq = ''Monthly'',
       ttype = ''Residential''\<rparr>"
  let ?jan1 = "\<lparr>year = 2024, month = 1, day = 1\<rparr>"
  let ?w = "\<lparr>today = ?jan1, payments = []\<rparr>"
  note t = overdue_is_strict[of ?jan1 ?row ?jan1 ?w "[?jan1]" 1000 "''Unpaid''" 1 "''A1''"
      "''N''" "''5''" None "''Residential''"]
  have p: "strptime_date (start_str ?row) = Inr ?jan1" by code_simp
  have g: "get_due_dates ?jan1 (freq_months_of (freq ?row)) (today ?w) = Some (Inr [?jan1])"
    by code_simp
  have l: "\<forall>x\<in>set [?jan1]. \<not> date_lt x (today ?w)" using t by simp
  have c: "calculate_status ?w ?row = Some (Inr (1000, ''Unpaid''))" using t by blast
  have n: "''Unpaid'' \<noteq> ''Overdue''" using t p g l c by blast
  have "\<not> date_lt ?jan1 (today ?w)" using l by simp
  with p g c n show ?thesis by blast
qed

section \<open>Monotonicity in the horizon\<close>

lemma loop_mono:
  assumes "get_due_dates_loop f h2 acc cur = Some r" "r = Inr d2" "date_le h1 h2"
  shows "\<exists>d1. get_due_dates_loop f h1 acc cur = Some (Inr d1) \<and>
               length acc \<le> length d1 \<and> length d1 \<le> length d2"
  using assms
proof (induction f h2 acc cur r arbitrary: d2 rule: loop_induct)
  case (step loop f h2 acc cur r)
  show ?case
  proof (cases "date_le cur h2")
    case False
    with step(2,3) have d2: "d2 = acc" by simp
    have "\<not> date_le cur h1" using False step(4) date_le_trans by blast
    then have "get_due_dates_loop f h1 acc cur = Some (Inr acc)" by (rule loop_exit)
    then show ?thesis using d2 by simp
  next
    case True
    show ?thesis
    proof (cases "date_add cur (relativedelta_months f)")
      case (Inl e)
      with step(2,3) True show ?thesis by simp
    next
      case (Inr nxt)
      with step(2) True have "loop f h2 (acc @ [cur]) nxt = Some r" by simp
      from step(1)[OF this step(3,4)] obtain d1 where
        d1: "get_due_dates_loop f h1 (acc @ [cur]) nxt = Some (Inr d1)"
          "length (acc @ [cur]) \<le> length d1" "length d1 \<le> length d2" by blast
      show ?thesis
      proof (cases "date_le cur h1")
        case c: True
        have "get_due_dates_loop f h1 acc cur = get_due_dates_loop f h1 (acc @ [cur]) nxt"
          by (subst get_due_dates_loop.simps) (simp add: c Inr)
        then show ?thesis using d1 by simp
      next
        case c: False
        then have "get_due_dates_loop f h1 acc cur = Some (Inr acc)" by (rule loop_exit)
        then show ?thesis using d1 by simp
      qed
    qed
  qed
qed

lemma get_due_dates_mono:
  assumes "date_le h1 h2" "get_due_dates start f h2 = Some (Inr d2)"
  shows "\<exists>d1. get_due_dates start f h1 = Some (Inr d1) \<and> length d1 \<le> length d2"
  using loop_mono[OF assms(2)[unfolded get_due_dates_def] refl assms(1)]
  unfolding get_due_dates_def by blast

lemma calculate_status_returns_cases:
  assumes "calculate_status w row = Some (Inr (b, s))"
  shows "\<exists>start ds. strptime_date (start_str row) = Inr start \<and>
     get_due_dates start (freq_months_of (freq row)) (today w) = Some (Inr ds) \<and>
     b = real (length ds) * rent row - total_paid (payments w) (tid row)"
  using assms
  by (auto simp add: calculate_status_exact Let_def split: sum.splits option.splits if_splits)

lemma calculate_status_balance:
  assumes "strptime_date (start_str row) = Inr start"
    and "get_due_dates start (freq_months_of (freq row)) (today w) = Some (Inr ds)"
  shows "\<exists>s. calculate_status w row =
     Some (Inr (real (length ds) * rent row - total_paid (payments w) (tid row), s))"
proof -
  note nd = next_due_defined[OF assms(2) strptime_date_valid[OF assms(1)]]
  show ?thesis
    by (simp add: calculate_status_exact assms nd Let_def)
qed

text \<open>
  C9: for a fixed start date and frequency, an earlier horizon never gives more due dates
  than a later one: whenever the generator returns a list for the later horizon it returns
  one for the earlier horizon too, and that list is no longer. So, for a non-negative
  rent, the expected amount \<open>length * rent\<close> does not decrease when the horizon grows,
  and with the same payments the balance that \<^verbatim>\<open>calculate_status\<close> returns on a
  later day is at least the one it returns on an earlier day.
\<close>

theorem due_dates_monotone:
  "(date_le h1 h2 \<longrightarrow> get_due_dates start f h2 = Some (Inr d2) \<longrightarrow>
      (\<exists>d1. get_due_dates start f h1 = Some (Inr d1) \<and> length d1 \<le> length d2 \<and>
            (0 \<le> r \<longrightarrow> real (length d1) * r \<le> real (length d2) * r))) \<and>
   (date_le (today w1) (today w2) \<longrightarrow> payments w1 = payments w2 \<longrightarrow> 0 \<le> rent row \<longrightarrow>
    calculate_status w2 row = Some (Inr (b2, s2)) \<longrightarrow>
      (\<exists>b1 s1. calculate_status w1 row = Some (Inr (b1, s1)) \<and> b1 \<le> b2))"
proof (intro conjI impI)
  show "\<exists>d1. get_due_dates start f h1 = Some (Inr d1) \<and> length d1 \<le> length d2 \<and>
            (0 \<le> r \<longrightarrow> real (length d1) * r \<le> real (length d2) * r)"
    if "date_le h1 h2" "get_due_dates start f h2 = Some (Inr d2)"
  proof -
    from get_due_dates_mono[OF that] obtain d1 where
      d1: "get_due_dates start f h1 = Some (Inr d1)" "length d1 \<le> length d2" by blast
    have "real (length d1) * r \<le> real (length d2) * r" if "0 \<le> r"
      using d1(2) that by (simp add: mult_right_mono)
    with d1 show ?thesis by blast
  qed
  show "\<exists>b1 s1. calculate_status w1 row = Some (Inr (b1, s1)) \<and> b1 \<le> b2"
    if le: "date_le (today w1) (today w2)" and ps: "payments w1 = payments w2"
      and r: "0 \<le> rent row" and c: "calculate_status w2 row = Some (Inr (b2, s2))"
  proof -
    from calculate_status_returns_cases[OF c] obtain start d2 where
      p: "strptime_date (start_str row) = Inr start"
      and g2: "get_due_dates start (freq_months_of (freq row)) (today w2) = Some (Inr d2)"
      and b2: "b2 = real (length d2) * rent row - total_paid (payments w2) (tid row)"
      by blast
    from get_due_dates_mono[OF le g2] obtain d1 where
      g1: "get_due_dates start (freq_months_of (freq row)) (today w1) = Some (Inr d1)"
      and l: "length d1 \<le> length d2" by blast
    from calculate_status_balance[OF p g1] obtain s1 where
      c1: "calculate_status w1 row =
        Some (Inr (real (length d1) * rent row - total_paid (payments w1) (tid row), s1))"
      by blast
    have "real (length d1) * rent row \<le> real (length d2) * rent row"
      using l r by (simp add: mult_right_mono)
    then have "real (length d1) * rent row - total_paid (payments w1) (tid row) \<le> b2"
      unfolding b2 ps by simp
    with c1 show ?thesis by blast
  qed
qed

theorem due_dates_monotone_witness:
  "date_le \<lparr>year = 2024, month = 2, day = 15\<rparr> \<lparr>year = 2024, month = 4, day = 1\<rparr> \<and>
   get_due_dates \<lparr>year = 2024, month = 1, day = 1\<rparr> 1 \<lparr>year = 2024, month = 4, day = 1\<rparr> =
     Some (Inr [\<lparr>year = 2024, month = 1, day = 1\<rparr>, \<lparr>year = 2024, month = 2, day = 1\<rparr>,
                \<lparr>year = 2024, month = 3, day = 1\<rparr>, \<lparr>year = 2024, month = 4, day = 1\<rparr>]) \<and>
   (\<exists>d1. get_due_dates \<lparr>year = 2024, month = 1, day = 1\<rparr> 1 \<lparr>year = 2024, month = 2, day = 15\<rparr>
            = Some (Inr d1) \<and> length d1 \<le> 4 \<and> real (length d1) * 1000 \<le> 4000) \<and>
   date_le (today \<lparr>today = \<lparr>year = 2024, month = 2, day = 15\<rparr>, payments = []\<rparr>)
           (today \<lparr>today = \<lparr>year = 2024, month = 4, day = 1\<rparr>, payments = []\<rparr>) \<and>
   calculate_status \<lparr>today = \<lparr>year = 2024, month = 4, day = 1\<rparr>, payments = []\<rparr>
     \<lparr>tid = 1, unit = ''A1'', name = ''N'', phone = ''5'',
       start_str = ''2024-01-01'', end_str = None, rent = 1000, freq = ''Monthly'',
       ttype = ''Residential''\<rparr> = Some (Inr (4000, ''Overdue'')) \<and>
   (\<exists>b1 s1. calculate_status \<lparr>today = \<lparr>year = 2024, month = 2, day = 15\<rparr>, payments = []\<rparr>
     \<lparr>tid = 1, unit = ''A1'', name = ''N'', phone = ''5'',
       start_str = ''2024-01-01'', end_str = None, rent = 1000, freq = ''Monthly'',
       ttype = ''Residential''\<rparr> = Some (Inr (b1, s1)) \<and> b1 \<le> 4000)"
proof -
  let ?w1 = "\<lparr>today = \<lparr>year = 2024, month = 2, day = 15\<rparr>, payments = []\<rparr>"
  let ?w2 = "\<lparr>today = \<lparr>year = 2024, month = 4, day = 1\<rparr>, payments = []\<rparr>"
  let ?row = "\<lparr>tid = 1, unit = ''A1'', name = ''N'', phone = ''5'',
       start_str = ''2024-01-01'', end_str = None, rent = 1000, freq = ''Monthly'',
       ttype = ''Residential''\<rparr>"
  have tl: "date_le (today ?w1) (today ?w2)" by (simp add: date_le_def)
  have c2: "calculate_status ?w2 ?row = Some (Inr (4000, ''Overdue''))" by code_simp
  have ps: "payments ?w1 = payments ?w2" "0 \<le> rent ?row" by simp_all
  from due_dates_monotone[of _ _ _ _ _ _ ?w1 ?w2 ?row 4000 "''Overdue''"] tl c2 ps
  have part2: "\<exists>b1 s1. calculate_status ?w1 ?row = Some (Inr (b1, s1)) \<and> b1 \<le> 4000"
    by blast
  let ?s = "\<lparr>year = 2024, month = 1, day = 1\<rparr>"
  let ?h1 = "\<lparr>year = 2024, month = 2, day = 15\<rparr>"
  let ?h2 = "\<lparr>year = 2024, month = 4, day = 1\<rparr>"
  let ?d2 = "[\<lparr>year = 2024, month = 1, day = 1\<rparr>, \<lparr>year = 2024, month = 2, day = 1\<rparr>,
                \<lparr>year = 2024, month = 3, day = 1\<rparr>, \<lparr>year = 2024, month = 4, day = 1\<rparr>]"
  have le: "date_le ?h1 ?h2" by (simp add: date_le_def)
  have g: "get_due_dates ?s 1 ?h2 = Some (Inr ?d2)" by code_simp
  from due_dates_monotone[of ?h1 ?h2 ?s 1 ?d2 1000] le g
  have "\<exists>d1. get_due_dates ?s 1 ?h1 = Some (Inr d1) \<and> length d1 \<le> length ?d2 \<and>
            (0 \<le> (1000::real) \<longrightarrow> real (length d1) * 1000 \<le> real (length ?d2) * 1000)"
    by blast
  then obtain d1 where d1: "get_due_dates ?s 1 ?h1 = Some (Inr d1)" "length d1 \<le> length ?d2"
    "real (length d1) * 1000 \<le> real (length ?d2) * 1000"
    by auto
  have "length d1 \<le> 4" using d1(2) by simp
  moreover have "real (length d1) * 1000 \<le> 4000" using d1(3) by simp
  ultimately have part1: "\<exists>d1. get_due_dates ?s 1 ?h1 = Some (Inr d1) \<and> length d1 \<le> 4 \<and>
      real (length d1) * 1000 \<le> 4000"
    using d1(1) by blast
  show ?thesis using le g part1 tl c2 part2 by blast
qed

section \<open>What the aggregate status depends on\<close>

text \<open>
  C7, as the code has it: \<^verbatim>\<open>calculate_status\<close> takes the tenant row alone and reads
  the current date and the payments from its surroundings. Its result is determined by
  the tenant row, the current date and the stored payments of that tenant: two calls in
  which these agree give the same result, whatever else the database holds.
\<close>

theorem calculate_status_depends_on:
  assumes "today w1 = today w2"
    and "filter (\<lambda>p. tenant_id p = tid row) (payments w1) =
         filter (\<lambda>p. tenant_id p = tid row) (payments w2)"
  shows "calculate_status w1 row = calculate_status w2 row"
proof -
  have h: "total_paid (payments w1) (tid row) = total_paid (payments w2) (tid row)"
    by (simp add: total_paid_sum assms(2))
  show ?thesis unfolding calculate_status_exact assms(1) h by (rule refl)
qed

theorem calculate_status_depends_on_witness:
  "today \<lparr>today = \<lparr>year = 2024, month = 4, day = 1\<rparr>, payments = []\<rparr> =
   today \<lparr>today = \<lparr>year = 2024, month = 4, day = 1\<rparr>,
     payments = [\<lparr>pay_id = 1, tenant_id = 2, due_date = ''2024-01-01'', amount_due = 300,
           amount_paid = 300, payment_date = ''2024-01-01'', pay_method = ''Cash''\<rparr>]\<rparr> \<and>
   calculate_status \<lparr>today = \<lparr>year = 2024, month = 4, day = 1\<rparr>, payments = []\<rparr>
     \<lparr>tid = 1, unit = ''A1'', name = ''N'', phone = ''5'',
       start_str = ''2024-01-01'', end_str = None, rent = 1000, freq = ''Monthly'',
       ttype = ''Residential''\<rparr> =
   calculate_status \<lparr>today = \<lparr>year = 2024, month = 4, day = 1\<rparr>,
     payments = [\<lparr>pay_id = 1, tenant_id = 2, due_date = ''2024-01-01'', amount_due = 300,
           amount_paid = 300, payment_date = ''2024-01-01'', pay_method = ''Cash''\<rparr>]\<rparr>
     \<lparr>tid = 1, unit = ''A1'', name = ''N'', phone = ''5'',
       start_str = ''2024-01-01'', end_str = None, rent = 1000, freq = ''Monthly'',
       ttype = ''Residential''\<rparr>"
proof -
  let ?w1 = "\<lparr>today = \<lparr>year = 2024, month = 4, day = 1\<rparr>, payments = []\<rparr>"
  let ?w2 = "\<lparr>today = \<lparr>year = 2024, month = 4, day = 1\<rparr>,
     payments = [\<lparr>pay_id = 1, tenant_id = 2, due_date = ''2024-01-01'', amount_due = 300,
           amount_paid = 300, payment_date = ''2024-01-01'', pay_method = ''Cash''\<rparr>]\<rparr>"
  let ?row = "\<lparr>tid = 1, unit = ''A1'', name = ''N'', phone = ''5'',
       start_str = ''2024-01-01'', end_str = None, rent = 1000, freq = ''Monthly'',
       ttype = ''Residential''\<rparr>"
  have a: "today ?w1 = today ?w2" by simp
  have b: "filter (\<lambda>p. tenant_id p = tid ?row) (payments ?w1) =
         filter (\<lambda>p. tenant_id p = tid ?row) (payments ?w2)" by simp
  from calculate_status_depends_on[OF a b] a show ?thesis by blast
qed

text \<open>
  The same tenant row gives different results on different days: the current date is an
  input that the function takes from the clock, not from its argument.
\<close>

theorem calculate_status_ambient_counterexample:
  "calculate_status \<lparr>today = \<lparr>year = 2024, month = 1, day = 1\<rparr>, payments = []\<rparr>
     \<lparr>tid = 1, unit = ''A1'', name = ''N'', phone = ''5'',
       start_str = ''2024-01-01'', end_str = None, rent = 1000, freq = ''Monthly'',
       ttype = ''Residential''\<rparr> = Some (Inr (1000, ''Unpaid'')) \<and>
   calculate_status \<lparr>today = \<lparr>year = 2024, month = 4, day = 1\<rparr>, payments = []\<rparr>
     \<lparr>tid = 1, unit = ''A1'', name = ''N'', phone = ''5'',
       start_str = ''2024-01-01'', end_str = None, rent = 1000, freq = ''Monthly'',
       ttype = ''Residential''\<rparr> = Some (Inr (4000, ''Overdue''))"
  by (rule conjI; code_simp)

section \<open>Frequencies that are not positive\<close>

text \<open>
  C3, as the code has it: \<^verbatim>\<open>get_due_dates\<close> does not look at the sign of
  \<^verbatim>\<open>freq_months\<close> and knows no error of its own. When the start is after the
  horizon it returns the empty list, whatever the frequency. When the start is not after
  the horizon, a negative frequency walks back to year 1 and ends in the date library's
  \<^verbatim>\<open>ValueError\<close>, and the frequency zero never ends. For every frequency other
  than zero the call ends, by returning or by raising. The frequency that
  \<^verbatim>\<open>calculate_status\<close> passes comes from \<^verbatim>\<open>freq_map\<close> and is positive.
\<close>

theorem get_due_dates_unvalidated:
  assumes "valid_date start" and "valid_date until"
  shows "(\<not> date_le start until \<longrightarrow> get_due_dates start f until = Some (Inr [])) \<and>
    (date_le start until \<longrightarrow> f < 0 \<longrightarrow> get_due_dates start f until = Some (Inl ValueError)) \<and>
    (date_le start until \<longrightarrow> f = 0 \<longrightarrow> get_due_dates start f until = None) \<and>
    (f \<noteq> 0 \<longrightarrow> (\<exists>r. get_due_dates start f until = Some r)) \<and>
    0 < freq_months_of s"
proof (intro conjI impI)
  show "get_due_dates start f until = Some (Inr [])" if "\<not> date_le start until"
    unfolding get_due_dates_def by (rule loop_exit[OF that])
  show n: "get_due_dates start f until = Some (Inl ValueError)" if "date_le start until" "f < 0"
    unfolding get_due_dates_def by (rule loop_raises_neg[OF that(2) assms(1) that(1)])
  show "get_due_dates start f until = None" if "date_le start until" "f = 0"
    unfolding get_due_dates_def that(2) by (rule loop_diverges_zero[OF assms(1) that(1)])
  show "\<exists>r. get_due_dates start f until = Some r" if "f \<noteq> 0"
  proof (cases "0 < f")
    case True
    then show ?thesis by (rule get_due_dates_terminates[OF _ assms(2,1)])
  next
    case False
    with that have neg: "f < 0" by simp
    show ?thesis
    proof (cases "date_le start until")
      case True
      then show ?thesis using n neg by blast
    next
      case False
      then show ?thesis unfolding get_due_dates_def by (simp add: loop_exit)
    qed
  qed
  show "0 < freq_months_of s" by (rule freq_months_of_pos)
qed

theorem get_due_dates_unvalidated_witness:
  "valid_date \<lparr>year = 2024, month = 1, day = 2\<rparr> \<and> valid_date \<lparr>year = 2024, month = 1, day = 1\<rparr> \<and>
   \<not> date_le \<lparr>year = 2024, month = 1, day = 2\<rparr> \<lparr>year = 2024, month = 1, day = 1\<rparr> \<and>
   date_le \<lparr>year = 2024, month = 1, day = 1\<rparr> \<lparr>year = 2024, month = 1, day = 1\<rparr> \<and>
   get_due_dates \<lparr>year = 2024, month = 1, day = 2\<rparr> (- 1) \<lparr>year = 2024, month = 1, day = 1\<rparr>
     = Some (Inr []) \<and>
   get_due_dates \<lparr>year = 2024, month = 1, day = 1\<rparr> (- 1) \<lparr>year = 2024, month = 1, day = 1\<rparr>
     = Some (Inl ValueError) \<and>
   get_due_dates \<lparr>year = 2024, month = 1, day = 1\<rparr> 0 \<lparr>year = 2024, month = 1, day = 1\<rparr> = None \<and>
   (\<exists>r. get_due_dates \<lparr>year = 2024, month = 1, day = 1\<rparr> 3 \<lparr>year = 2024, month = 1, day = 1\<rparr>
      = Some r)"
proof -
  let ?a = "\<lparr>year = 2024, month = 1, day = 1\<rparr>"
  let ?b = "\<lparr>year = 2024, month = 1, day = 2\<rparr>"
  have v: "valid_date ?b" "valid_date ?a" by code_simp+
  have o: "\<not> date_le ?b ?a" "date_le ?a ?a" by (simp_all add: date_le_def)
  note t = get_due_dates_unvalidated
  have 1: "get_due_dates ?b (- 1) ?a = Some (Inr [])" using t[OF v(1) v(2), of "- 1"] o by blast
  have 2: "get_due_dates ?a (- 1) ?a = Some (Inl ValueError)"
    using t[OF v(2) v(2), of "- 1"] o by simp
  have 3: "get_due_dates ?a 0 ?a = None" using t[OF v(2) v(2), of 0] o by blast
  have 4: "\<exists>r. get_due_dates ?a 3 ?a = Some r" using t[OF v(2) v(2), of 3] by simp
  show ?thesis using v o 1 2 3 4 by blast
qed

text \<open>
  With the frequency zero the call returns the empty list without any error when the
  start is after the horizon, and does not end when it is not.
\<close>

theorem get_due_dates_zero_counterexample:
  "get_due_dates \<lparr>year = 2024, month = 1, day = 2\<rparr> 0 \<lparr>year = 2024, month = 1, day = 1\<rparr>
     = Some (Inr []) \<and>
   get_due_dates \<lparr>year = 2024, month = 1, day = 1\<rparr> 0 \<lparr>year = 2024, month = 1, day = 1\<rparr> = None"
proof
  show "get_due_dates \<lparr>year = 2024, month = 1, day = 2\<rparr> 0 \<lparr>year = 2024, month = 1, day = 1\<rparr>
     = Some (Inr [])" by code_simp
  have v: "valid_date \<lparr>year = 2024, month = 1, day = 1\<rparr>" by code_simp
  show "get_due_dates \<lparr>year = 2024, month = 1, day = 1\<rparr> 0 \<lparr>year = 2024, month = 1, day = 1\<rparr> = None"
    unfolding get_due_dates_def by (rule loop_diverges_zero[OF v date_le_refl])
qed

section \<open>The end of the calendar\<close>

lemma date_le_max:
  assumes "valid_date d"
  shows "date_le d \<lparr>year = 9999, month = 12, day = 31\<rparr>"
  using assms days_in_month_le[of "year d" "month d"]
  unfolding valid_date_def date_le_def by simp linarith

lemma get_due_dates_raises_at_max:
  assumes "0 < f" "valid_date start"
  shows "get_due_dates start f \<lparr>year = 9999, month = 12, day = 31\<rparr> = Some (Inl ValueError)"
proof -
  let ?max = "\<lparr>year = 9999, month = 12, day = 31\<rparr>"
  have v: "valid_date ?max" by code_simp
  from get_due_dates_terminates[OF assms(1) v assms(2)]
  obtain r where r: "get_due_dates start f ?max = Some r" by blast
  show ?thesis
  proof (cases r)
    case (Inl e)
    then show ?thesis using r by (cases e) simp
  next
    case (Inr ds)
    from get_due_dates_result(3,4)[OF r[unfolded Inr] assms(2)] date_le_max
    show ?thesis by blast
  qed
qed

text \<open>
  The dates generated from 2024-01-31 with a monthly frequency: the day is clamped to 29
  in February 2024 and to 28 in February 2025, and stays there.
\<close>

lemma jan31_inv_step:
  assumes "28 \<le> day d" "24301 \<le> month_index d \<longrightarrow> day d = 28" "24288 \<le> month_index d"
  shows "28 \<le> day (month_shift d 1)"
    and "24301 \<le> month_index (month_shift d 1) \<longrightarrow> day (month_shift d 1) = 28"
    and "24288 \<le> month_index (month_shift d 1)"
proof -
  let ?n = "month_shift d 1"
  have dm: "28 \<le> days_in_month (year ?n) (month ?n)" by (rule days_in_month_ge)
  show "28 \<le> day ?n" using assms(1) dm by (simp add: month_shift_day)
  show "24288 \<le> month_index ?n" using assms(3) by (simp add: month_index_shift)
  show "24301 \<le> month_index ?n \<longrightarrow> day ?n = 28"
  proof
    assume a: "24301 \<le> month_index ?n"
    show "day ?n = 28"
    proof (cases "24301 \<le> month_index d")
      case True
      with assms(2) have "day d = 28" by simp
      then show ?thesis using dm by (simp add: month_shift_day)
    next
      case False
      with a have i: "month_index d + 1 = 24301" by (simp add: month_index_shift)
      have "year ?n = 2025" "month ?n = 2"
        by (simp_all add: month_shift_def Let_def i)
      then have "days_in_month (year ?n) (month ?n) = 28"
        by (simp add: days_in_month_def mdays_def is_leap_def)
      then show ?thesis using assms(1) by (simp add: month_shift_day)
    qed
  qed
qed

lemma jan31_inv:
  "28 \<le> day (step_date 1 \<lparr>year = 2024, month = 1, day = 31\<rparr> n) \<and>
   (24301 \<le> month_index (step_date 1 \<lparr>year = 2024, month = 1, day = 31\<rparr> n) \<longrightarrow>
      day (step_date 1 \<lparr>year = 2024, month = 1, day = 31\<rparr> n) = 28) \<and>
   24288 \<le> month_index (step_date 1 \<lparr>year = 2024, month = 1, day = 31\<rparr> n)"
proof (induction n)
  case 0
  show ?case by (simp add: step_date_0 month_index_def)
next
  case (Suc n)
  then show ?case using jan31_inv_step[of "step_date 1 \<lparr>year = 2024, month = 1, day = 31\<rparr> n"]
    unfolding step_date_Suc' by blast
qed

lemma jan31_first_two:
  assumes "date_le \<lparr>year = 2024, month = 2, day = 29\<rparr> h"
  shows "get_due_dates \<lparr>year = 2024, month = 1, day = 31\<rparr> 1 h =
    get_due_dates_loop 1 h [\<lparr>year = 2024, month = 1, day = 31\<rparr>, \<lparr>year = 2024, month = 2, day = 29\<rparr>]
      \<lparr>year = 2024, month = 3, day = 29\<rparr>"
proof -
  let ?jan = "\<lparr>year = 2024, month = 1, day = 31\<rparr>"
  let ?feb = "\<lparr>year = 2024, month = 2, day = 29\<rparr>"
  let ?mar = "\<lparr>year = 2024, month = 3, day = 29\<rparr>"
  have j: "date_le ?jan h" using assms unfolding date_le_def by simp linarith
  have a1: "date_add ?jan (relativedelta_months 1) = Inr ?feb" by code_simp
  have a2: "date_add ?feb (relativedelta_months 1) = Inr ?mar" by code_simp
  have "get_due_dates ?jan 1 h = get_due_dates_loop 1 h [?jan] ?feb"
    unfolding get_due_dates_def by (subst get_due_dates_loop.simps) (simp add: j a1)
  also have "\<dots> = get_due_dates_loop 1 h [?jan, ?feb] ?mar"
    by (subst get_due_dates_loop.simps) (simp add: assms a2)
  finally show ?thesis .
qed

lemma loop_extends:
  assumes "get_due_dates_loop f until acc cur = Some (Inr ds)" "valid_date cur"
  shows "\<exists>ds'. ds = acc @ ds'"
  using loop_result[OF assms] by auto

lemma jan31_returns:
  assumes "valid_date h" "date_lt h \<lparr>year = 9999, month = 12, day = 28\<rparr>"
  shows "\<exists>ds. get_due_dates \<lparr>year = 2024, month = 1, day = 31\<rparr> 1 h = Some (Inr ds)"
  unfolding get_due_dates_def
proof (rule loop_returns[where I = "\<lambda>d. 28 \<le> day d \<and> (24301 \<le> month_index d \<longrightarrow> day d = 28) \<and>
      24288 \<le> month_index d"])
  show "(0::int) < 1" by simp
  show "valid_date h" by (rule assms(1))
  show "valid_date \<lparr>year = 2024, month = 1, day = 31\<rparr>" by code_simp
  show "28 \<le> day \<lparr>year = 2024, month = 1, day = 31\<rparr> \<and>
    (24301 \<le> month_index \<lparr>year = 2024, month = 1, day = 31\<rparr> \<longrightarrow>
       day \<lparr>year = 2024, month = 1, day = 31\<rparr> = 28) \<and>
    24288 \<le> month_index \<lparr>year = 2024, month = 1, day = 31\<rparr>"
    by (simp add: month_index_def)
next
  fix d
  assume i: "28 \<le> day d \<and> (24301 \<le> month_index d \<longrightarrow> day d = 28) \<and> 24288 \<le> month_index d"
    and v: "valid_date d" and le: "date_le d h"
  have "month_index d \<noteq> 119999"
  proof
    assume e: "month_index d = 119999"
    then have "year d = 9999" "month d = 12"
      using v unfolding month_index_def valid_date_def by linarith+
    moreover have "day d = 28" using i e by simp
    ultimately show False
      using le assms unfolding date_le_def date_lt_def valid_date_def by simp
  qed
  moreover have "month_index d \<le> 119999"
    using v unfolding month_index_def valid_date_def by linarith
  ultimately have "month_index (month_shift d 1) \<le> 119999" by (simp add: month_index_shift)
  then have "year (month_shift d 1) \<le> 9999"
    using month_shift_month[of d 1] unfolding month_index_def by linarith
  then show "year (month_shift d 1) \<le> 9999 \<and>
    (28 \<le> day (month_shift d 1) \<and>
     (24301 \<le> month_index (month_shift d 1) \<longrightarrow> day (month_shift d 1) = 28) \<and>
     24288 \<le> month_index (month_shift d 1))"
    using jan31_inv_step[of d] i by blast
qed

lemma jan31_raises:
  assumes "valid_date h" "date_le \<lparr>year = 9999, month = 12, day = 28\<rparr> h"
  shows "get_due_dates \<lparr>year = 2024, month = 1, day = 31\<rparr> 1 h = Some (Inl ValueError)"
proof -
  let ?jan = "\<lparr>year = 2024, month = 1, day = 31\<rparr>"
  have vj: "valid_date ?jan" by code_simp
  from get_due_dates_terminates[OF _ assms(1) vj, of 1]
  obtain r where r: "get_due_dates ?jan 1 h = Some r" by auto
  show ?thesis
  proof (cases r)
    case (Inl e)
    then show ?thesis using r by (cases e) simp
  next
    case (Inr ds)
    let ?x = "step_date 1 ?jan (length ds)"
    from get_due_dates_result(3,4)[OF r[unfolded Inr] vj]
    have x: "\<not> date_le ?x h" "valid_date ?x" by simp_all
    have "date_lt \<lparr>year = 9999, month = 12, day = 28\<rparr> ?x"
      using x(1) assms(2) unfolding date_le_def date_lt_def by simp linarith
    then have ym: "year ?x = 9999" "month ?x = 12" and d: "28 < day ?x"
      using x(2) unfolding date_lt_def valid_date_def by simp_all
    have "month_index ?x = 119999" using ym by (simp add: month_index_def)
    then have "day ?x = 28" using jan31_inv[of "length ds"] by simp
    with d show ?thesis by simp
  qed
qed

lemma jan31_prefix:
  assumes "get_due_dates \<lparr>year = 2024, month = 1, day = 31\<rparr> 1 h = Some (Inr ds)"
    "date_le \<lparr>year = 2024, month = 2, day = 29\<rparr> h"
  shows "2 \<le> length ds" "ds ! 0 = \<lparr>year = 2024, month = 1, day = 31\<rparr>"
    "ds ! 1 = \<lparr>year = 2024, month = 2, day = 29\<rparr>"
proof -
  let ?jan = "\<lparr>year = 2024, month = 1, day = 31\<rparr>"
  let ?feb = "\<lparr>year = 2024, month = 2, day = 29\<rparr>"
  let ?mar = "\<lparr>year = 2024, month = 3, day = 29\<rparr>"
  have vm: "valid_date ?mar" by code_simp
  from assms(1) have "get_due_dates_loop 1 h [?jan, ?feb] ?mar = Some (Inr ds)"
    by (simp add: jan31_first_two[OF assms(2)])
  from loop_extends[OF this vm] obtain ds' where "ds = [?jan, ?feb] @ ds'" by blast
  then show "2 \<le> length ds" "ds ! 0 = ?jan" "ds ! 1 = ?feb" by simp_all
qed

lemma date_add_clamps:
  assumes "valid_date d" "date_add d (relativedelta_months n) = Inr d'"
  shows "year d' * 12 + month d' - 1 = year d * 12 + month d - 1 + n"
    and "day d' = min (day d) (days_in_month (year d') (month d'))"
proof -
  note e = date_add_valid(2)[OF assms]
  show "year d' * 12 + month d' - 1 = year d * 12 + month d - 1 + n"
    using month_index_shift[of d n] unfolding e month_index_def by simp
  show "day d' = min (day d) (days_in_month (year d') (month d'))"
    unfolding e by (simp add: month_shift_day min.commute)
qed

text \<open>
  C6, as the code has it: adding months to a date lands in the month that many months
  later, keeps the day of the month when that month has it and takes the last day of
  that month otherwise; 2024-01-31 plus one month is 2024-02-29. For a start on
  2024-01-31 with a monthly frequency, every horizon from 2024-02-29 up to 9999-12-27
  gives a list whose first two dates are 2024-01-31 and 2024-02-29. For the last four
  days of the calendar as horizon the call raises \<^verbatim>\<open>ValueError\<close>, because the loop
  steps to the date after the horizon before it tests it.
\<close>

theorem month_end_clamping:
  "(valid_date d \<longrightarrow> date_add d (relativedelta_months n) = Inr d' \<longrightarrow>
      valid_date d' \<and>
      year d' * 12 + month d' - 1 = year d * 12 + month d - 1 + n \<and>
      day d' = min (day d) (days_in_month (year d') (month d'))) \<and>
   date_add \<lparr>year = 2024, month = 1, day = 31\<rparr> (relativedelta_months 1) =
     Inr \<lparr>year = 2024, month = 2, day = 29\<rparr> \<and>
   (valid_date h \<longrightarrow> date_le \<lparr>year = 2024, month = 2, day = 29\<rparr> h \<longrightarrow>
    date_lt h \<lparr>year = 9999, month = 12, day = 28\<rparr> \<longrightarrow>
      (\<exists>ds. get_due_dates \<lparr>year = 2024, month = 1, day = 31\<rparr> 1 h = Some (Inr ds) \<and>
            2 \<le> length ds \<and> ds ! 0 = \<lparr>year = 2024, month = 1, day = 31\<rparr> \<and>
            ds ! 1 = \<lparr>year = 2024, month = 2, day = 29\<rparr>)) \<and>
   (valid_date h \<longrightarrow> date_le \<lparr>year = 9999, month = 12, day = 28\<rparr> h \<longrightarrow>
      get_due_dates \<lparr>year = 2024, month = 1, day = 31\<rparr> 1 h = Some (Inl ValueError))"
proof (intro conjI impI)
  show "valid_date d'" if "valid_date d" "date_add d (relativedelta_months n) = Inr d'"
    by (rule date_add_valid(1)[OF that])
  show "year d' * 12 + month d' - 1 = year d * 12 + month d - 1 + n"
    if "valid_date d" "date_add d (relativedelta_months n) = Inr d'"
    by (rule date_add_clamps(1)[OF that])
  show "day d' = min (day d) (days_in_month (year d') (month d'))"
    if "valid_date d" "date_add d (relativedelta_months n) = Inr d'"
    by (rule date_add_clamps(2)[OF that])
  show "date_add \<lparr>year = 2024, month = 1, day = 31\<rparr> (relativedelta_months 1) =
     Inr \<lparr>year = 2024, month = 2, day = 29\<rparr>" by code_simp
  show "\<exists>ds. get_due_dates \<lparr>year = 2024, month = 1, day = 31\<rparr> 1 h = Some (Inr ds) \<and>
            2 \<le> length ds \<and> ds ! 0 = \<lparr>year = 2024, month = 1, day = 31\<rparr> \<and>
            ds ! 1 = \<lparr>year = 2024, month = 2, day = 29\<rparr>"
    if "valid_date h" "date_le \<lparr>year = 2024, month = 2, day = 29\<rparr> h"
      "date_lt h \<lparr>year = 9999, month = 12, day = 28\<rparr>"
  proof -
    from jan31_returns[OF that(1,3)] obtain ds where
      ds: "get_due_dates \<lparr>year = 2024, month = 1, day = 31\<rparr> 1 h = Some (Inr ds)" by blast
    from jan31_prefix[OF ds that(2)] ds show ?thesis by blast
  qed
  show "get_due_dates \<lparr>year = 2024, month = 1, day = 31\<rparr> 1 h = Some (Inl ValueError)"
    if "valid_date h" "date_le \<lparr>year = 9999, month = 12, day = 28\<rparr> h"
    by (rule jan31_raises[OF that])
qed

theorem month_end_clamping_witness:
  "valid_date \<lparr>year = 2024, month = 1, day = 31\<rparr> \<and>
   date_add \<lparr>year = 2024, month = 1, day = 31\<rparr> (relativedelta_months 1) =
     Inr \<lparr>year = 2024, month = 2, day = 29\<rparr> \<and>
   day \<lparr>year = 2024, month = 2, day = 29\<rparr> =
     min (day \<lparr>year = 2024, month = 1, day = 31\<rparr>)
       (days_in_month (year \<lparr>year = 2024, month = 2, day = 29\<rparr>)
          (month \<lparr>year = 2024, month = 2, day = 29\<rparr>)) \<and>
   valid_date \<lparr>year = 2024, month = 3, day = 31\<rparr> \<and>
   date_le \<lparr>year = 2024, month = 2, day = 29\<rparr> \<lparr>year = 2024, month = 3, day = 31\<rparr> \<and>
   date_lt \<lparr>year = 2024, month = 3, day = 31\<rparr> \<lparr>year = 9999, month = 12, day = 28\<rparr> \<and>
   (\<exists>ds. get_due_dates \<lparr>year = 2024, month = 1, day = 31\<rparr> 1
            \<lparr>year = 2024, month = 3, day = 31\<rparr> = Some (Inr ds) \<and>
         ds ! 1 = \<lparr>year = 2024, month = 2, day = 29\<rparr>) \<and>
   valid_date \<lparr>year = 9999, month = 12, day = 30\<rparr> \<and>
   date_le \<lparr>year = 9999, month = 12, day = 28\<rparr> \<lparr>year = 9999, month = 12, day = 30\<rparr> \<and>
   get_due_dates \<lparr>year = 2024, month = 1, day = 31\<rparr> 1 \<lparr>year = 9999, month = 12, day = 30\<rparr>
     = Some (Inl ValueError)"
proof -
  let ?jan = "\<lparr>year = 2024, month = 1, day = 31\<rparr>"
  let ?feb = "\<lparr>year = 2024, month = 2, day = 29\<rparr>"
  let ?h = "\<lparr>year = 2024, month = 3, day = 31\<rparr>"
  let ?late = "\<lparr>year = 9999, month = 12, day = 30\<rparr>"
  have v: "valid_date ?jan" "valid_date ?h" "valid_date ?late" by code_simp+
  have o: "date_le ?feb ?h" "date_lt ?h \<lparr>year = 9999, month = 12, day = 28\<rparr>"
    "date_le \<lparr>year = 9999, month = 12, day = 28\<rparr> ?late"
    by (simp_all add: date_le_def date_lt_def)
  note t1 = month_end_clamping[of ?jan 1 ?feb ?h]
  note t2 = month_end_clamping[of ?jan 1 ?feb ?late]
  have a: "date_add ?jan (relativedelta_months 1) = Inr ?feb" using t1 by blast
  have c: "day ?feb = min (day ?jan) (days_in_month (year ?feb) (month ?feb))"
    using t1 v(1) a by blast
  have g: "\<exists>ds. get_due_dates ?jan 1 ?h = Some (Inr ds) \<and> ds ! 1 = ?feb"
    using t1 v(2) o(1,2) by blast
  have r: "get_due_dates ?jan 1 ?late = Some (Inl ValueError)"
    using t2 v(3) o(3) by blast
  show ?thesis using v o a c g r by blast
qed

text \<open>
  With the last day of the calendar as horizon the call raises instead of returning a
  list with a second date.
\<close>

theorem month_end_clamping_counterexample:
  "get_due_dates \<lparr>year = 2024, month = 1, day = 31\<rparr> 1 \<lparr>year = 9999, month = 12, day = 31\<rparr>
     = Some (Inl ValueError) \<and>
   date_le \<lparr>year = 2024, month = 2, day = 29\<rparr> \<lparr>year = 9999, month = 12, day = 31\<rparr>"
proof
  have v: "valid_date \<lparr>year = 2024, month = 1, day = 31\<rparr>" by code_simp
  show "get_due_dates \<lparr>year = 2024, month = 1, day = 31\<rparr> 1 \<lparr>year = 9999, month = 12, day = 31\<rparr>
     = Some (Inl ValueError)"
    by (rule get_due_dates_raises_at_max[OF _ v]) simp
  show "date_le \<lparr>year = 2024, month = 2, day = 29\<rparr> \<lparr>year = 9999, month = 12, day = 31\<rparr>"
    by (simp add: date_le_def)
qed

section \<open>The generated schedule\<close>

















end
